theory Spec2Isabelle
  imports Main "HOL-Library.Word" "HOL-Library.Signed_Division"
begin

unbundle bit_operations_syntax

section \<open>Machine integers of the Go source\<close>

text \<open>
  Go's \<open>int64\<close> and \<open>uint64\<close> are both 64-bit words; the conversions \<open>uint64(x)\<close> and
  \<open>int64(x)\<close> keep the bit pattern, so one word type serves for both and the source's
  choice of signedness shows in the operation used: \<open>\<le>s\<close> and \<open><s\<close> compare as
  \<open>int64\<close>, \<open>drop_bit\<close> is the logical shift of \<open>uint64\<close>, \<open>push_bit\<close> the left shift
  (bits shifted out are lost, a count of 64 or more gives 0, as in Go).
  On a 64-bit platform \<open>int\<close> is \<open>int64\<close> as well.
\<close>

type_synonym int64 = "64 word"
type_synonym uint8 = "8 word"

text \<open>Go's \<open>/\<close> and \<open>%\<close> on \<open>int64\<close> truncate towards zero; the remainder has the sign of
  the dividend.\<close>

definition quo64 :: "int64 \<Rightarrow> int64 \<Rightarrow> int64" where
  "quo64 a b = word_of_int (sint a sdiv sint b)"

definition rem64 :: "int64 \<Rightarrow> int64 \<Rightarrow> int64" where
  "rem64 a b = word_of_int (sint a smod sint b)"

section \<open>The standard library's decimal conversions\<close>

text \<open>
  \<open>strconv.ParseInt(s, 10, 64)\<close> and \<open>strconv.FormatInt(i, 10)\<close> belong to Go's standard
  library, not to this package. They are modelled after the library's documented behaviour:
  \<open>ParseInt\<close> takes an optional sign \<open>+\<close> or \<open>-\<close> followed by at least one decimal digit
  and nothing else, and fails (here \<open>None\<close>) on a syntax error or when the value does not
  fit \<open>int64\<close>; \<open>FormatInt\<close> writes a \<open>-\<close> for a negative value and then the decimal
  digits of the magnitude without leading zeros. A Go string is a sequence of bytes, as
  \<open>string\<close> is here.
\<close>

definition is_digit :: "char \<Rightarrow> bool" where
  "is_digit c = (48 \<le> (of_char c :: nat) \<and> (of_char c :: nat) \<le> 57)"

definition digit_val :: "char \<Rightarrow> nat" where
  "digit_val c = of_char c - 48"

definition digit_char :: "nat \<Rightarrow> char" where
  "digit_char d = char_of (48 + d)"

text \<open>The digit loop of \<open>ParseUint\<close>; the range check is done on the exact value afterwards.\<close>

fun parse_digits :: "nat \<Rightarrow> string \<Rightarrow> nat option" where
  "parse_digits acc [] = Some acc"
| "parse_digits acc (c # cs) =
     (if is_digit c then parse_digits (acc * 10 + digit_val c) cs else None)"

definition ParseInt :: "string \<Rightarrow> int64 option" where
  "ParseInt s =
     (case s of
        [] \<Rightarrow> None
      | c # cs \<Rightarrow>
          (let neg = (c = CHR ''-'');
               ds = (if c = CHR ''+'' \<or> c = CHR ''-'' then cs else s)
           in if ds = [] then None
              else (case parse_digits 0 ds of
                      None \<Rightarrow> None
                    | Some un \<Rightarrow>
                        if \<not> neg \<and> 2 ^ 63 \<le> un then None
                        else if neg \<and> 2 ^ 63 < un then None
                        else Some (if neg then - word_of_nat un else word_of_nat un))))"

fun digits10 :: "nat \<Rightarrow> string" where
  "digits10 n =
     (if n < 10 then [digit_char n] else digits10 (n div 10) @ [digit_char (n mod 10)])"

declare digits10.simps [simp del]

definition FormatInt :: "int64 \<Rightarrow> string" where
  "FormatInt i =
     (if i <s 0 then CHR ''-'' # digits10 (nat (- sint i)) else digits10 (nat (sint i)))"

section \<open>Snowflake and NetSnowflake\<close>

text \<open>
  \<open>type Snowflake int64\<close> and \<open>type NetSnowflake string\<close>. \<open>MarshalJSON\<close> never returns
  an error, so only its bytes are modelled. \<open>UnmarshalJSON\<close> follows the JSON decoder
  below.
\<close>

type_synonym Snowflake = int64
type_synonym NetSnowflake = string

definition MarshalJSON :: "Snowflake \<Rightarrow> string" where
  "MarshalJSON sf = [CHR 0x22] @ FormatInt sf @ [CHR 0x22]"

definition FromString :: "string \<Rightarrow> Snowflake" where
  "FromString s = (case ParseInt s of None \<Rightarrow> - 1 | Some i \<Rightarrow> i)"

definition NewNetSnowflake :: "int64 \<Rightarrow> NetSnowflake" where
  "NewNetSnowflake i = FormatInt i"

definition Valid :: "NetSnowflake \<Rightarrow> bool" where
  "Valid s = (case ParseInt s of None \<Rightarrow> False | Some i \<Rightarrow> if i <s 0 then False else True)"

definition ToID :: "NetSnowflake \<Rightarrow> int64" where
  "ToID s = (case ParseInt s of None \<Rightarrow> - 1 | Some i \<Rightarrow> i)"

section \<open>The standard library's JSON decoder, as far as \<open>UnmarshalJSON\<close> uses it\<close>

text \<open>
  \<open>UnmarshalJSON\<close> hands its bytes to \<open>json.Unmarshal\<close> with an \<open>interface{}\<close> target and
  switches on the dynamic type of what comes back. \<open>encoding/json\<close> is Go's standard
  library, not this package; it is modelled after its documented behaviour for the JSON
  texts that consist of one scalar: a string without escapes and without bytes above
  \<open>0x7F\<close>, a number, or one of \<open>null\<close>, \<open>true\<close>, \<open>false\<close>, with JSON white space around
  it. For these the decoder's answer is determined here; for a text that starts an array
  or an object, or a string with a backslash or a byte above \<open>0x7F\<close>, the model gives
  \<open>Beyond\<close> and says nothing.

  With an \<open>interface{}\<close> target the decoder stores a JSON number as a \<open>float64\<close>, a
  string as a \<open>string\<close>, a boolean as a \<open>bool\<close> and \<open>null\<close> as \<open>nil\<close>; it never stores
  an \<open>int\<close> or an \<open>int64\<close>. The number is converted by \<open>strconv.ParseFloat\<close>, which
  gives the \<open>float64\<close> nearest to the decimal value, ties to the even mantissa, and fails
  when that is beyond the largest \<open>float64\<close>.
\<close>

text \<open>A finite \<open>float64\<close>: sign, mantissa and binary exponent, of value
  \<open>mantissa * 2 ^ exponent\<close>.\<close>

datatype float64 = Float64 (negative: bool) (mantissa: nat) (exponent: int)

fun bit_length :: "nat \<Rightarrow> nat" where
  "bit_length n = (if n = 0 then 0 else Suc (bit_length (n div 2)))"

declare bit_length.simps [simp del]

text \<open>The fraction \<open>p / (q * 2 ^ e)\<close> as numerator and denominator.\<close>

definition scaled :: "nat \<Rightarrow> nat \<Rightarrow> int \<Rightarrow> nat \<times> nat" where
  "scaled p q e = (if 0 \<le> e then (p, q * 2 ^ nat e) else (p * 2 ^ nat (- e), q))"

text \<open>
  Rounding the magnitude \<open>p / q\<close> to a \<open>float64\<close>: the exponent is chosen so that the
  mantissa has 53 bits (or is the least exponent \<open>-1074\<close>), and the mantissa is the nearest
  integer, the even one at a tie. \<open>None\<close> is the range error.
\<close>

definition round_float64 :: "nat \<Rightarrow> nat \<Rightarrow> (nat \<times> int) option" where
  "round_float64 p q =
     (if p = 0 then Some (0, 0)
      else
        let e0 = int (bit_length p) - int (bit_length q) - 53;
            e1 = (if fst (scaled p q e0) < 2 ^ 53 * snd (scaled p q e0) then e0 else e0 + 1);
            e = max e1 (- 1074);
            num = fst (scaled p q e);
            den = snd (scaled p q e);
            m0 = num div den;
            r = num mod den;
            m = (if den < 2 * r \<or> (2 * r = den \<and> odd m0) then m0 + 1 else m0)
        in if 0 \<le> e \<and> 2 ^ 1024 \<le> m * 2 ^ nat e then None else Some (m, e))"

text \<open>
  Go's conversion \<open>int(v)\<close> of a \<open>float64\<close>: the fraction is dropped (truncation towards
  zero). When the result does not fit \<open>int64\<close> the language leaves it to the
  implementation: \<open>None\<close>.
\<close>

definition int_of_float64 :: "float64 \<Rightarrow> int64 option" where
  "int_of_float64 v =
     (let t = (if 0 \<le> exponent v then int (mantissa v) * 2 ^ nat (exponent v)
               else int (mantissa v) div 2 ^ nat (- exponent v));
          i = (if negative v then - t else t)
      in if - (2 ^ 63) \<le> i \<and> i < 2 ^ 63 then Some (word_of_int i) else None)"

text \<open>JSON white space, and a text without the white space around it.\<close>

definition is_space :: "char \<Rightarrow> bool" where
  "is_space c = (c = CHR 0x20 \<or> c = CHR 0x09 \<or> c = CHR 0x0A \<or> c = CHR 0x0D)"

definition trim :: "string \<Rightarrow> string" where
  "trim s = rev (dropWhile is_space (rev (dropWhile is_space s)))"

definition digits_val :: "string \<Rightarrow> nat" where
  "digits_val ds = foldl (\<lambda>a c. a * 10 + digit_val c) 0 ds"

text \<open>
  A JSON number: an optional \<open>-\<close>, the integer digits (no leading zero before another
  digit), an optional fraction of a point and at least one digit, and an optional exponent
  of \<open>e\<close> or \<open>E\<close>, an optional sign and at least one digit. The result is the sign, the
  digits \<open>n\<close> read as one number and the decimal exponent \<open>e\<close>: the value is
  \<open>n * 10 ^ e\<close>.
\<close>

definition json_fraction :: "string \<Rightarrow> (string \<times> string) option" where
  "json_fraction s =
     (case s of
        [] \<Rightarrow> Some ([], [])
      | c # cs \<Rightarrow>
          if c = CHR ''.'' then
            (if takeWhile is_digit cs = [] then None
             else Some (takeWhile is_digit cs, dropWhile is_digit cs))
          else Some ([], s))"

definition json_exponent :: "string \<Rightarrow> int option" where
  "json_exponent s =
     (case s of
        [] \<Rightarrow> Some 0
      | c # cs \<Rightarrow>
          if c = CHR ''e'' \<or> c = CHR ''E'' then
            (let neg = (case cs of [] \<Rightarrow> False | d # ds \<Rightarrow> d = CHR ''-'');
                 ds = (case cs of [] \<Rightarrow> []
                       | d # ds \<Rightarrow> if d = CHR ''+'' \<or> d = CHR ''-'' then ds else cs)
             in if ds = [] \<or> dropWhile is_digit ds \<noteq> [] then None
                else Some (if neg then - int (digits_val ds) else int (digits_val ds)))
          else None)"

definition json_number :: "string \<Rightarrow> (bool \<times> nat \<times> int) option" where
  "json_number s =
     (let neg = (case s of [] \<Rightarrow> False | c # cs \<Rightarrow> c = CHR ''-'');
          s1 = (case s of [] \<Rightarrow> [] | c # cs \<Rightarrow> if c = CHR ''-'' then cs else s);
          ip = takeWhile is_digit s1
      in if ip = [] \<or> (1 < length ip \<and> hd ip = CHR ''0'') then None
         else (case json_fraction (dropWhile is_digit s1) of
                 None \<Rightarrow> None
               | Some (fp, s3) \<Rightarrow>
                   (case json_exponent s3 of
                      None \<Rightarrow> None
                    | Some x \<Rightarrow> Some (neg, digits_val (ip @ fp), x - int (length fp)))))"

definition float64_of_decimal :: "bool \<Rightarrow> nat \<Rightarrow> int \<Rightarrow> float64 option" where
  "float64_of_decimal neg n e =
     (case (if 0 \<le> e then round_float64 (n * 10 ^ nat e) 1
            else round_float64 n (10 ^ nat (- e))) of
        None \<Rightarrow> None
      | Some (m, x) \<Rightarrow> Some (Float64 neg m x))"

text \<open>The dynamic values the switch of \<open>UnmarshalJSON\<close> tells apart; \<open>Other\<close> stands for
  \<open>nil\<close> and \<open>bool\<close>, which no case of the switch takes.\<close>

datatype dynamic = Int_value int64 | Float64_value float64 | Int64_value int64
  | String_value string | Other

datatype decoded = Invalid | Beyond | Value dynamic

definition plain_char :: "char \<Rightarrow> bool" where
  "plain_char c = (c \<noteq> CHR 0x5C \<and> (of_char c :: nat) < 128)"

definition json_string :: "string \<Rightarrow> decoded" where
  "json_string cs =
     (if \<not> list_all plain_char cs then Beyond
      else if dropWhile (\<lambda>c. c \<noteq> CHR 0x22) cs \<noteq> [CHR 0x22] then Invalid
      else if list_ex (\<lambda>c. (of_char c :: nat) < 32) cs then Invalid
      else Value (String_value (takeWhile (\<lambda>c. c \<noteq> CHR 0x22) cs)))"

definition json_Unmarshal :: "string \<Rightarrow> decoded" where
  "json_Unmarshal b =
     (case trim b of
        [] \<Rightarrow> Invalid
      | c # cs \<Rightarrow>
          if c = CHR 0x22 then json_string cs
          else if c = CHR ''['' \<or> c = CHR ''{'' then Beyond
          else if c # cs = ''null'' \<or> c # cs = ''true'' \<or> c # cs = ''false'' then Value Other
          else (case json_number (c # cs) of
                  None \<Rightarrow> Invalid
                | Some (neg, n, e) \<Rightarrow>
                    (case float64_of_decimal neg n e of
                       None \<Rightarrow> Invalid
                     | Some v \<Rightarrow> Value (Float64_value v))))"

text \<open>
  \<open>UnmarshalJSON\<close>: the error returned, or \<open>nil\<close> together with the receiver's value
  afterwards. The result is \<open>None\<close> where the model does not determine it: on a text the
  decoder model leaves open, and where \<open>int(v)\<close> is left to the implementation.
\<close>

datatype error = JSON_error | Parse_error

definition UnmarshalJSON :: "string \<Rightarrow> Snowflake \<Rightarrow> (error + Snowflake) option" where
  "UnmarshalJSON b sf =
     (case json_Unmarshal b of
        Invalid \<Rightarrow> Some (Inl JSON_error)
      | Beyond \<Rightarrow> None
      | Value itm \<Rightarrow>
          (case itm of
             Int_value v \<Rightarrow> Some (Inr v)
           | Float64_value v \<Rightarrow>
               (case int_of_float64 v of None \<Rightarrow> None | Some i \<Rightarrow> Some (Inr i))
           | Int64_value v \<Rightarrow> Some (Inr v)
           | String_value v \<Rightarrow>
               (case ParseInt v of None \<Rightarrow> Some (Inl Parse_error) | Some i \<Rightarrow> Some (Inr i))
           | Other \<Rightarrow> Some (Inr sf)))"

section \<open>The generator\<close>

definition baseEpoch :: int64 where
  "baseEpoch = 1611252000000"

definition baseSeqIdBits :: uint8 where
  "baseSeqIdBits = 12"

definition baseNodeBits :: uint8 where
  "baseNodeBits = 10"

text \<open>
  The fields of \<open>SnowflakeNode\<close>, without the mutex (calls are modelled one after the
  other) and without \<open>epoch\<close>: the clock below is read relative to it.
\<close>

record SnowflakeNode =
  sequence :: int64
  epochBits :: uint8
  nodeIdBits :: uint8
  seqIdBits :: uint8
  seqStep :: int64
  timeStep :: uint8
  nodeStep :: uint8
  time :: int64
  nodeId :: int64

definition NewSnowflakeNode :: "int64 \<Rightarrow> SnowflakeNode" where
  "NewSnowflakeNode shardId =
     \<lparr> sequence = 0,
       epochBits = 41,
       nodeIdBits = 10,
       seqIdBits = baseSeqIdBits,
       seqStep = (- 1) XOR push_bit (unat baseSeqIdBits) (- 1),
       timeStep = baseNodeBits + baseSeqIdBits,
       nodeStep = baseNodeBits,
       time = 0,
       nodeId = shardId \<rparr>"

text \<open>
  The clock: \<open>clk k\<close> is what the \<open>k\<close>-th evaluation of
  \<open>time.Since(self.epoch).Nanoseconds()\<close> returns, and the number of readings taken so far
  is threaded through the calls.
\<close>

type_synonym clock = "nat \<Rightarrow> int64"

definition millis :: "clock \<Rightarrow> nat \<Rightarrow> int64" where
  "millis clk k = quo64 (clk k) 1000000"

text \<open>The loop \<open>for now <= self.time { now = ... }\<close>. It runs for as long as the clock
  stays at or below \<open>self.time\<close>, forever on a clock that never passes it: the result is
  then \<open>None\<close>.\<close>

partial_function (option) spin :: "clock \<Rightarrow> int64 \<Rightarrow> int64 \<Rightarrow> nat \<Rightarrow> (int64 \<times> nat) option" where
  "spin clk t now k = (if now \<le>s t then spin clk t (millis clk k) (Suc k) else Some (now, k))"

text \<open>
  \<open>Next\<close>. The first part is the code under the mutex: it chooses the time and the
  sequence and stores both in the node; the identifier is composed from them afterwards.
  A call that never leaves the loop returns nothing.
\<close>

definition Next :: "clock \<Rightarrow> SnowflakeNode \<Rightarrow> nat \<Rightarrow> (Snowflake \<times> SnowflakeNode \<times> nat) option" where
  "Next clk self k =
     (case (let now = millis clk k in
            if now = time self then
              (let s = (sequence self + 1) AND seqStep self in
               if s = 0 then
                 (case spin clk (time self) now (Suc k) of
                    None \<Rightarrow> None
                  | Some (now', k') \<Rightarrow> Some (now', s, k'))
               else Some (now, s, Suc k))
            else Some (now, 0, Suc k)) of
        None \<Rightarrow> None
      | Some (now, seq, k') \<Rightarrow>
          Some ((push_bit (unat (timeStep self)) now
                   OR push_bit (unat (nodeStep self)) (nodeId self))
                  OR seq,
                self\<lparr>sequence := seq, time := now\<rparr>,
                k'))"

text \<open>\<open>n\<close> calls of \<open>Next\<close> one after the other on the same node, with the identifiers in
  the order they were returned.\<close>

fun NextN :: "nat \<Rightarrow> clock \<Rightarrow> SnowflakeNode \<Rightarrow> nat \<Rightarrow> (Snowflake list \<times> SnowflakeNode \<times> nat) option" where
  "NextN 0 clk self k = Some ([], self, k)"
| "NextN (Suc n) clk self k =
     (case Next clk self k of
        None \<Rightarrow> None
      | Some (i, self', k') \<Rightarrow>
          (case NextN n clk self' k' of
             None \<Rightarrow> None
           | Some (ids, self'', k'') \<Rightarrow> Some (i # ids, self'', k'')))"

section \<open>The semantic codec\<close>

record SemanticSnowflake =
  ID :: int64
  NodeID :: int64
  TypeID :: int64
  GlobalTypeID :: int64

definition NewSemanticSnowflake :: "Snowflake \<Rightarrow> SemanticSnowflake" where
  "NewSemanticSnowflake flake =
     \<lparr> ID = drop_bit 23 flake,
       NodeID = drop_bit 51 (push_bit 41 flake),
       TypeID = flake AND (push_bit 10 1 - 1),
       GlobalTypeID = flake AND (push_bit 23 1 - 1) \<rparr>"

definition GetID :: "SemanticSnowflake \<Rightarrow> int64" where
  "GetID s = ID s"

definition GetNodeID :: "SemanticSnowflake \<Rightarrow> int64" where
  "GetNodeID s = rem64 (NodeID s) 8192"

definition GetTypeID :: "SemanticSnowflake \<Rightarrow> int64" where
  "GetTypeID s = rem64 (TypeID s) 1024"

definition ToSnowflake :: "SemanticSnowflake \<Rightarrow> Snowflake" where
  "ToSnowflake s = (push_bit 23 (ID s) OR push_bit 10 (GetNodeID s)) OR GetTypeID s"

definition ToNetSnowflake :: "SemanticSnowflake \<Rightarrow> NetSnowflake" where
  "ToNetSnowflake s = NewNetSnowflake (ToSnowflake s)"

section \<open>Facts about 64-bit words\<close>

lemma sint_nonneg_uint: "0 \<le>s (a::int64) \<Longrightarrow> sint a = uint a"
proof -
  assume "0 \<le>s a"
  then have "0 \<le> sint a" by (simp add: word_sle_eq)
  moreover have "sint a < 2 ^ 64" using sint_less [of a] by simp
  ultimately have "take_bit 64 (sint a) = sint a" by (simp add: take_bit_int_eq_self)
  then show ?thesis using uint_sint [of a] by simp
qed

lemma sint_pow2: "n < 63 \<Longrightarrow> sint (2 ^ n :: int64) = 2 ^ n"
proof -
  assume n: "n < 63"
  have "(2 ^ n :: int64) \<noteq> 0" using n by simp
  then have "0 < (2 ^ n :: int64)" by (rule iffD1 [OF word_neq_0_conv])
  then have "uint (2 ^ n :: int64) = 2 ^ n" by (rule uint_2p)
  moreover have "(2::int) ^ n < 2 ^ 63" using n by (intro power_strict_increasing) simp_all
  moreover have "- (2 ^ 63) \<le> (2::int) ^ n"
    by (rule order_trans [of _ 0]) simp_all
  ultimately have "signed_take_bit 63 (uint (2 ^ n :: int64)) = 2 ^ n"
    by (simp only: signed_take_bit_int_eq_self)
  then show ?thesis by (simp add: sint_uint)
qed

lemma smod_nonneg: "0 \<le> (k::int) \<Longrightarrow> k smod 2 ^ n = k mod 2 ^ n"
  by (cases "k = 0") (simp_all add: signed_modulo_int_def)

lemma smod_small: "\<bar>r\<bar> < \<bar>l\<bar> \<Longrightarrow> (r::int) smod l = r"
  by (simp add: signed_modulo_int_def sgn_mult_abs)

lemma smod_bound: "l \<noteq> 0 \<Longrightarrow> \<bar>(k::int) smod l\<bar> < \<bar>l\<bar>"
  by (simp add: signed_modulo_int_def abs_mult abs_sgn_eq)

lemma rem64_idem:
  assumes "0 < sint m" 
  shows "rem64 (rem64 a m) m = rem64 a m"
proof -
  let ?r = "sint a smod sint m"
  have b: "\<bar>?r\<bar> < sint m" using smod_bound [of "sint m" "sint a"] assms by simp
  have "sint m < 2 ^ 63" using sint_less [of m] by simp
  then have "- (2 ^ 63) \<le> ?r" "?r < 2 ^ 63" using b by simp_all
  then have "signed_take_bit 63 ?r = ?r" by (simp only: signed_take_bit_int_eq_self)
  then have "sint (word_of_int ?r :: int64) = ?r" by (simp add: sint_sbintrunc')
  moreover have "?r smod sint m = ?r" using b assms by (intro smod_small) simp
  ultimately show ?thesis by (simp add: rem64_def)
qed

lemma rem64_nonneg_int:
  assumes "0 \<le>s a" "n < 63"
  shows "rem64 a (2 ^ n) = word_of_int (sint a mod 2 ^ n)"
proof -
  have "rem64 a (2 ^ n) = word_of_int (uint a smod 2 ^ n)"
    by (simp add: rem64_def sint_pow2 assms sint_nonneg_uint)
  also have "uint a smod 2 ^ n = uint a mod 2 ^ n"
    by (rule smod_nonneg) simp
  finally show ?thesis by (simp add: sint_nonneg_uint assms)
qed

lemma rem64_nonneg_pow2:
  assumes "0 \<le>s a" "n < 63"
  shows "rem64 a (2 ^ n) = take_bit n a"
proof -
  have u: "0 \<le> uint a" by simp
  have "rem64 a (2 ^ n) = word_of_int (uint a smod 2 ^ n)"
    by (simp add: rem64_def sint_pow2 assms sint_nonneg_uint)
  also have "uint a smod 2 ^ n = uint a mod 2 ^ n"
    by (rule smod_nonneg) (rule u)
  also have "word_of_int (uint a mod 2 ^ n) = take_bit n a"
    by (simp add: take_bit_eq_mask and_mask_mod_2p)
  finally show ?thesis .
qed

lemma fits_take_bit:
  assumes "0 \<le>s (a::int64)" "a <s 2 ^ n" "n < 63"
  shows "take_bit n a = a"
proof -
  have "uint a < 2 ^ n"
    using assms by (simp add: word_sless_alt sint_pow2 sint_nonneg_uint)
  then have "take_bit n (uint a) = uint a" by (simp add: take_bit_int_eq_self)
  then show ?thesis by (simp add: word_eq_iff_unsigned [where ?'a = int] unsigned_take_bit_eq)
qed

lemma unat_shr: "unat (drop_bit n (w::int64)) = unat w div 2 ^ n"
  by (simp only: unat_drop_bit_eq drop_bit_nat_def)

lemma unat_low: "unat (take_bit n (w::int64)) = unat w mod 2 ^ n"
  by (simp only: unsigned_take_bit_eq take_bit_nat_def)

lemma shl_shr_eq: "drop_bit 51 (push_bit 41 f) = take_bit 13 (drop_bit 10 (f::int64))"
  by (rule bit_word_eqI) (auto simp: bit_simps)

lemma low_mask_eq: "n < 64 \<Longrightarrow> (f::int64) AND (push_bit n 1 - 1) = take_bit n f"
  by (simp add: take_bit_eq_mask mask_eq_exp_minus_1 push_bit_eq_mult)

section \<open>The semantic codec: encoding and decoding\<close>

lemma rem64_8192: "0 \<le>s a \<Longrightarrow> rem64 a 8192 = take_bit 13 a"
  using rem64_nonneg_pow2 [of a 13] by simp

lemma rem64_1024: "0 \<le>s a \<Longrightarrow> rem64 a 1024 = take_bit 10 a"
  using rem64_nonneg_pow2 [of a 10] by simp

lemma ToSnowflake_nonneg:
  assumes "0 \<le>s NodeID s" "0 \<le>s TypeID s"
  shows "ToSnowflake s = (push_bit 23 (ID s) OR push_bit 10 (take_bit 13 (NodeID s))) OR take_bit 10 (TypeID s)"
  using assms by (simp add: ToSnowflake_def GetNodeID_def GetTypeID_def rem64_8192 rem64_1024)

lemma pack_ID: "drop_bit 23 ((push_bit 23 a OR push_bit 10 (take_bit 13 b)) OR take_bit 10 c) = take_bit 41 (a::int64)"
  by (rule bit_word_eqI) (auto simp: bit_simps)

lemma pack_NodeID: "drop_bit 51 (push_bit 41 ((push_bit 23 a OR push_bit 10 (take_bit 13 b)) OR take_bit 10 c)) = take_bit 13 (b::int64)"
  by (rule bit_word_eqI) (auto simp: bit_simps)

lemma pack_TypeID: "take_bit 10 ((push_bit 23 a OR push_bit 10 (take_bit 13 b)) OR take_bit 10 c) = take_bit 10 (c::int64)"
  by (rule bit_word_eqI) (auto simp: bit_simps)

lemma pack_sign: "bit ((push_bit 23 a OR push_bit 10 (take_bit 13 b)) OR take_bit 10 c) 63 = bit (a::int64) 40"
  by (auto simp: bit_simps)

lemma nonneg_iff_bit: "0 \<le>s (a::int64) \<longleftrightarrow> \<not> bit a 63"
  using bit_last_iff [of a] by (simp add: word_sle_eq not_less)

lemma decode_encode_nonneg:
  assumes "0 \<le>s NodeID s" "0 \<le>s TypeID s"
  shows "ID (NewSemanticSnowflake (ToSnowflake s)) = take_bit 41 (ID s)"
    and "NodeID (NewSemanticSnowflake (ToSnowflake s)) = take_bit 13 (NodeID s)"
    and "TypeID (NewSemanticSnowflake (ToSnowflake s)) = take_bit 10 (TypeID s)"
  unfolding NewSemanticSnowflake_def SemanticSnowflake.select_convs ToSnowflake_nonneg [OF assms]
  by (rule pack_ID, rule pack_NodeID, subst low_mask_eq, simp, rule pack_TypeID)

text \<open>
  Claim C5. Decoding is a total function of the 64-bit identifier: the object ID is the
  identifier shifted right by 23 as an unsigned value (all 41 high bits are kept), the node
  ID is \<open>(id << 41) >> 51\<close>, which is the 13 bits at offsets 10 to 22, the type ID is
  \<open>id & 0x3FF\<close>, the low 10 bits, and the global type ID is \<open>id & 0x7FFFFF\<close>, the low 23
  bits. Each field is given as the source computes it and as a number.
\<close>

theorem NewSemanticSnowflake_fields:
  "ID (NewSemanticSnowflake f) = drop_bit 23 f
   \<and> NodeID (NewSemanticSnowflake f) = drop_bit 51 (push_bit 41 f)
   \<and> TypeID (NewSemanticSnowflake f) = f AND 0x3FF
   \<and> GlobalTypeID (NewSemanticSnowflake f) = f AND 0x7FFFFF
   \<and> unat (ID (NewSemanticSnowflake f)) = unat f div 2 ^ 23
   \<and> unat (NodeID (NewSemanticSnowflake f)) = unat f div 2 ^ 10 mod 2 ^ 13
   \<and> unat (TypeID (NewSemanticSnowflake f)) = unat f mod 2 ^ 10
   \<and> unat (GlobalTypeID (NewSemanticSnowflake f)) = unat f mod 2 ^ 23"
proof -
  let ?d = "NewSemanticSnowflake f"
  have i: "ID ?d = drop_bit 23 f" and n: "NodeID ?d = drop_bit 51 (push_bit 41 f)"
    by (simp_all only: NewSemanticSnowflake_def SemanticSnowflake.select_convs)
  have t: "TypeID ?d = take_bit 10 f" and g: "GlobalTypeID ?d = take_bit 23 f"
    by (simp_all only: NewSemanticSnowflake_def SemanticSnowflake.select_convs)
       (simp_all only: low_mask_eq)
  have m10: "take_bit 10 f = f AND 0x3FF" and m23: "take_bit 23 f = f AND 0x7FFFFF"
    by (simp_all add: take_bit_eq_mask mask_eq_exp_minus_1)
  have "unat (ID ?d) = unat f div 2 ^ 23" unfolding i by (rule unat_shr)
  moreover have "unat (NodeID ?d) = unat f div 2 ^ 10 mod 2 ^ 13"
    unfolding n shl_shr_eq unat_low unat_shr ..
  moreover have "unat (TypeID ?d) = unat f mod 2 ^ 10" unfolding t by (rule unat_low)
  moreover have "unat (GlobalTypeID ?d) = unat f mod 2 ^ 23" unfolding g by (rule unat_low)
  ultimately show ?thesis using i n t g m10 m23 by simp
qed

lemma word_mod_pow2: "(a::int64) mod 2 ^ n = take_bit n a"
  by (simp add: take_bit_eq_mod)

text \<open>
  Claim C6, as stated, at a node ID below zero: Go's remainder of \<open>-1\<close> by 8192 is
  \<open>-1\<close>, not 8191, so the triple \<open>{5, -1, 0}\<close> encodes to \<open>-1024\<close>, while the node ID
  taken modulo 8192 gives \<open>50330624\<close>, the identifier of \<open>{5, 8191, 0}\<close>.
\<close>

theorem ToSnowflake_negative_node:
  "ToSnowflake \<lparr>ID = 5, NodeID = - 1, TypeID = 0, GlobalTypeID = 0\<rparr> = - 1024
   \<and> (push_bit 23 5 OR push_bit 10 (word_of_int ((- 1) mod 8192))) OR word_of_int (0 mod 1024)
       = (50330624 :: int64)
   \<and> ToSnowflake \<lparr>ID = 5, NodeID = 8191, TypeID = 0, GlobalTypeID = 0\<rparr> = 50330624"
proof -
  have r: "rem64 (- 1) 8192 = - 1" "rem64 0 1024 = 0" "rem64 8191 8192 = 8191"
    by (simp_all add: rem64_def signed_modulo_int_def)
  have m: "(- 1 :: int64) = 18446744073709551615" by simp
  have "(push_bit 23 5 OR push_bit 10 (- 1)) OR 0 = (- 1024 :: int64)"
    unfolding m by simp
  then show ?thesis
    by (simp add: ToSnowflake_def GetNodeID_def GetTypeID_def r)
qed

text \<open>
  Claim C6, amended. For every object ID the triple with node ID \<open>8192 + 50\<close> and type ID
  \<open>1024 + 100\<close> encodes to the identifier of the triple with node ID 50 and type ID 100.
  In general, when the node and type IDs are not negative, the identifier is
  \<open>(objectID << 23) | ((nodeID mod 8192) << 10) | (typeID mod 1024)\<close>, and no error is
  raised.
\<close>

theorem ToSnowflake_clamp_non_negative:
  "ToSnowflake \<lparr>ID = oid, NodeID = 8192 + 50, TypeID = 1024 + 100, GlobalTypeID = g\<rparr>
     = ToSnowflake \<lparr>ID = oid, NodeID = 50, TypeID = 100, GlobalTypeID = g'\<rparr>
   \<and> (0 \<le>s NodeID s \<and> 0 \<le>s TypeID s \<longrightarrow>
        ToSnowflake s =
          (push_bit 23 (ID s) OR push_bit 10 (word_of_int (sint (NodeID s) mod 8192)))
            OR word_of_int (sint (TypeID s) mod 1024)
      \<and> sint (GetNodeID s) = sint (NodeID s) mod 8192
      \<and> sint (GetTypeID s) = sint (TypeID s) mod 1024)"
proof -
  have ex: "ToSnowflake \<lparr>ID = oid, NodeID = 8192 + 50, TypeID = 1024 + 100, GlobalTypeID = g\<rparr>
     = ToSnowflake \<lparr>ID = oid, NodeID = 50, TypeID = 100, GlobalTypeID = g'\<rparr>"
    by (simp add: ToSnowflake_def GetNodeID_def GetTypeID_def rem64_def signed_modulo_int_def)
  have red: "rem64 a (2 ^ n) = word_of_int (sint a mod 2 ^ n)
      \<and> sint (rem64 a (2 ^ n)) = sint a mod 2 ^ n" if "0 \<le>s a" "n < 63" for a n
  proof -
    have e: "rem64 a (2 ^ n) = word_of_int (sint a mod 2 ^ n)"
      using that by (rule rem64_nonneg_int)
    have "0 \<le> sint a mod 2 ^ n" "sint a mod 2 ^ n < 2 ^ n" by simp_all
    moreover have "(2::int) ^ n < 2 ^ 63" using that(2) by (intro power_strict_increasing) simp_all
    ultimately have "- (2 ^ 63) \<le> sint a mod 2 ^ n" "sint a mod 2 ^ n < 2 ^ 63"
      by linarith+
    then have "signed_take_bit 63 (sint a mod 2 ^ n) = sint a mod 2 ^ n"
      by (simp only: signed_take_bit_int_eq_self)
    then have "sint (word_of_int (sint a mod 2 ^ n) :: int64) = sint a mod 2 ^ n"
      by (simp add: sint_sbintrunc')
    with e show ?thesis by simp
  qed
  have gen: "ToSnowflake s =
          (push_bit 23 (ID s) OR push_bit 10 (word_of_int (sint (NodeID s) mod 8192)))
            OR word_of_int (sint (TypeID s) mod 1024)
      \<and> sint (GetNodeID s) = sint (NodeID s) mod 8192
      \<and> sint (GetTypeID s) = sint (TypeID s) mod 1024"
    if "0 \<le>s NodeID s" "0 \<le>s TypeID s"
  proof -
    have l: "(13::nat) < 63" "(10::nat) < 63" by simp_all
    have p: "(2::int64) ^ 13 = 8192" "(2::int) ^ 13 = 8192" "(2::int64) ^ 10 = 1024"
      "(2::int) ^ 10 = 1024"
      by simp_all
    have n: "rem64 (NodeID s) 8192 = word_of_int (sint (NodeID s) mod 8192)"
      and n': "sint (rem64 (NodeID s) 8192) = sint (NodeID s) mod 8192"
      by (rule red [OF that(1) l(1), unfolded p, THEN conjunct1], rule red [OF that(1) l(1), unfolded p, THEN conjunct2])
    have t: "rem64 (TypeID s) 1024 = word_of_int (sint (TypeID s) mod 1024)"
      and t': "sint (rem64 (TypeID s) 1024) = sint (TypeID s) mod 1024"
      by (rule red [OF that(2) l(2), unfolded p, THEN conjunct1], rule red [OF that(2) l(2), unfolded p, THEN conjunct2])
    show ?thesis
      unfolding ToSnowflake_def GetNodeID_def GetTypeID_def n' t' by (simp only: n t)
  qed
  from ex gen show ?thesis by blast
qed

theorem ToSnowflake_clamp_non_negative_witness:
  "(0::int64) \<le>s 8242 \<and> (0::int64) \<le>s 1124
   \<and> sint (GetNodeID \<lparr>ID = 7, NodeID = 8242, TypeID = 1124, GlobalTypeID = 0\<rparr>) = 50
   \<and> sint (GetTypeID \<lparr>ID = 7, NodeID = 8242, TypeID = 1124, GlobalTypeID = 0\<rparr>) = 100
   \<and> ToSnowflake \<lparr>ID = 7, NodeID = 8242, TypeID = 1124, GlobalTypeID = 0\<rparr> = 58771556"
proof -
  let ?s = "\<lparr>ID = 7, NodeID = 8242, TypeID = 1124, GlobalTypeID = 0\<rparr>"
  have h: "0 \<le>s NodeID ?s \<and> 0 \<le>s TypeID ?s" by (simp add: word_sle_eq)
  note th = ToSnowflake_clamp_non_negative [where s = ?s, THEN conjunct2, rule_format, OF h]
  show ?thesis using th by (simp add: word_sle_eq)
qed

text \<open>
  Claim C3, as stated, at a type ID below zero: Go's remainder of \<open>-1\<close> is \<open>-1\<close>, whose
  bits cover the whole word, so neither the object ID 0 nor the node ID 0 comes back.
\<close>

theorem semantic_round_trip_negative_type:
  "NewSemanticSnowflake (ToSnowflake \<lparr>ID = 0, NodeID = 0, TypeID = - 1, GlobalTypeID = 0\<rparr>)
     = \<lparr>ID = 2199023255551, NodeID = 8191, TypeID = 1023, GlobalTypeID = 8388607\<rparr>
   \<and> GetNodeID \<lparr>ID = 0, NodeID = 0, TypeID = - 1, GlobalTypeID = 0\<rparr> = 0
   \<and> GetTypeID \<lparr>ID = 0, NodeID = 0, TypeID = - 1, GlobalTypeID = 0\<rparr> = - 1"
proof -
  have r: "rem64 (- 1) 1024 = - 1" "rem64 0 8192 = 0"
    by (simp_all add: rem64_def signed_modulo_int_def)
  have t: "ToSnowflake \<lparr>ID = 0, NodeID = 0, TypeID = - 1, GlobalTypeID = 0\<rparr>
             = 18446744073709551615"
    by (simp add: ToSnowflake_def GetNodeID_def GetTypeID_def r)
  show ?thesis
    unfolding t by (simp add: NewSemanticSnowflake_def GetNodeID_def GetTypeID_def r)
qed

text \<open>
  Claim C3, amended. For every triple whose object ID fits 41 bits and whose node and type
  IDs are not negative, decoding the encoded identifier gives back the object ID, the node
  ID modulo 8192 and the type ID modulo 1024; a node ID below 8192 and a type ID below 1024
  come back unchanged.
\<close>

theorem semantic_round_trip:
  assumes "0 \<le>s ID s" and "ID s <s 2 ^ 41" and "0 \<le>s NodeID s" and "0 \<le>s TypeID s"
  shows "ID (NewSemanticSnowflake (ToSnowflake s)) = ID s
    \<and> NodeID (NewSemanticSnowflake (ToSnowflake s)) = NodeID s mod 8192
    \<and> TypeID (NewSemanticSnowflake (ToSnowflake s)) = TypeID s mod 1024
    \<and> (NodeID s <s 8192 \<longrightarrow> NodeID (NewSemanticSnowflake (ToSnowflake s)) = NodeID s)
    \<and> (TypeID s <s 1024 \<longrightarrow> TypeID (NewSemanticSnowflake (ToSnowflake s)) = TypeID s)"
proof -
  let ?d = "NewSemanticSnowflake (ToSnowflake s)"
  have "take_bit 41 (ID s) = ID s"
    using assms(1,2) by (intro fits_take_bit) simp_all
  then have i: "ID ?d = ID s"
    by (simp add: decode_encode_nonneg(1) [OF assms(3,4)])
  have n: "NodeID ?d = NodeID s mod 8192"
    using word_mod_pow2 [of "NodeID s" 13] by (simp add: decode_encode_nonneg(2) [OF assms(3,4)])
  have t: "TypeID ?d = TypeID s mod 1024"
    using word_mod_pow2 [of "TypeID s" 10] by (simp add: decode_encode_nonneg(3) [OF assms(3,4)])
  have n': "NodeID ?d = NodeID s" if "NodeID s <s 8192"
    using fits_take_bit [of "NodeID s" 13] that assms(3)
    by (simp add: decode_encode_nonneg(2) [OF assms(3,4)])
  have t': "TypeID ?d = TypeID s" if "TypeID s <s 1024"
    using fits_take_bit [of "TypeID s" 10] that assms(4)
    by (simp add: decode_encode_nonneg(3) [OF assms(3,4)])
  from i n t n' t' show ?thesis by blast
qed

theorem semantic_round_trip_witness:
  "(0::int64) \<le>s 340524230265 \<and> (340524230265::int64) <s 2 ^ 41
   \<and> (0::int64) \<le>s 50 \<and> (50::int64) <s 8192 \<and> (0::int64) \<le>s 100 \<and> (100::int64) <s 1024
   \<and> ID (NewSemanticSnowflake (ToSnowflake
          \<lparr>ID = 340524230265, NodeID = 50, TypeID = 100, GlobalTypeID = 0\<rparr>)) = 340524230265
   \<and> NodeID (NewSemanticSnowflake (ToSnowflake
          \<lparr>ID = 340524230265, NodeID = 50, TypeID = 100, GlobalTypeID = 0\<rparr>)) = 50
   \<and> TypeID (NewSemanticSnowflake (ToSnowflake
          \<lparr>ID = 340524230265, NodeID = 50, TypeID = 100, GlobalTypeID = 0\<rparr>)) = 100"
  using semantic_round_trip [of "\<lparr>ID = 340524230265, NodeID = 50, TypeID = 100, GlobalTypeID = 0\<rparr>"]
  by (simp add: word_sle_eq word_sless_alt)

section \<open>The wire form: decimal strings\<close>

lemma digit_char_digit: "d < 10 \<Longrightarrow> is_digit (digit_char d) \<and> digit_val (digit_char d) = d"
  by (simp add: is_digit_def digit_val_def digit_char_def)

lemma is_digit_not_sign: "is_digit c \<Longrightarrow> c \<noteq> CHR ''+'' \<and> c \<noteq> CHR ''-''"
  by (auto simp: is_digit_def)

lemma parse_digits_append:
  "parse_digits acc (xs @ ys) =
     (case parse_digits acc xs of None \<Rightarrow> None | Some a \<Rightarrow> parse_digits a ys)"
  by (induction xs arbitrary: acc) simp_all

lemma parse_digits_digits10: "parse_digits 0 (digits10 n) = Some n"
proof (induction n rule: digits10.induct)
  case (1 n)
  show ?case
  proof (cases "n < 10")
    case True
    then show ?thesis
      by (subst digits10.simps) (simp add: digit_char_digit)
  next
    case False
    then have "parse_digits 0 (digits10 (n div 10)) = Some (n div 10)"
      by (rule "1.IH")
    moreover have "n mod 10 < 10" by simp
    ultimately show ?thesis using False
      by (subst digits10.simps) (simp add: parse_digits_append digit_char_digit)
  qed
qed

lemma digits10_head: "\<exists>c cs. digits10 n = c # cs \<and> is_digit c"
proof (induction n rule: digits10.induct)
  case (1 n)
  show ?case
  proof (cases "n < 10")
    case True
    then show ?thesis
      by (subst digits10.simps) (simp add: digit_char_digit)
  next
    case False
    then obtain c cs where "digits10 (n div 10) = c # cs" "is_digit c"
      using "1.IH" by blast
    then show ?thesis using False
      by (subst digits10.simps) simp
  qed
qed

lemma ParseInt_digits10:
  assumes "n < 2 ^ 63"
  shows "ParseInt (digits10 n) = Some (word_of_nat n)"
proof -
  obtain c cs where d: "digits10 n = c # cs" and c: "is_digit c"
    using digits10_head by blast
  have p: "parse_digits 0 (c # cs) = Some n"
    using parse_digits_digits10 [of n] by (simp only: d)
  show ?thesis
    using assms is_digit_not_sign [OF c] p
    by (simp add: d ParseInt_def del: parse_digits.simps)
qed

lemma ParseInt_minus_digits10:
  assumes "n \<le> 2 ^ 63"
  shows "ParseInt (CHR ''-'' # digits10 n) = Some (- word_of_nat n)"
proof -
  obtain c cs where d: "digits10 n = c # cs"
    using digits10_head by blast
  have p: "parse_digits 0 (c # cs) = Some n"
    using parse_digits_digits10 [of n] by (simp only: d)
  show ?thesis
    using assms p
    by (simp add: d ParseInt_def del: parse_digits.simps)
qed

lemma ParseInt_FormatInt: "ParseInt (FormatInt i) = Some i"
proof (cases "i <s 0")
  case True
  then have neg: "sint i < 0" by (simp add: word_sless_alt)
  have "- sint i \<le> 2 ^ 63" using sint_greater_eq [of i] by simp
  then have "nat (- sint i) \<le> 2 ^ 63" by simp
  then have "ParseInt (FormatInt i) = Some (- word_of_nat (nat (- sint i)))"
    using True by (simp add: FormatInt_def ParseInt_minus_digits10)
  also have "word_of_nat (nat (- sint i)) = (word_of_int (- sint i) :: int64)"
    using neg by (simp add: word_of_int_nat)
  finally show ?thesis by simp
next
  case False
  then have pos: "0 \<le> sint i" by (simp add: word_sless_alt)
  have "sint i < 2 ^ 63" using sint_less [of i] by simp
  then have "nat (sint i) < 2 ^ 63" using pos by simp
  then have "ParseInt (FormatInt i) = Some (word_of_nat (nat (sint i)))"
    using False by (simp add: FormatInt_def ParseInt_digits10)
  also have "word_of_nat (nat (sint i)) = (word_of_int (sint i) :: int64)"
    using pos by (simp add: word_of_int_nat)
  finally show ?thesis by simp
qed

lemmas parse_eval = ParseInt_def is_digit_def digit_val_def
lemmas format_eval = FormatInt_def digits10.simps digit_char_def char_of_eq_iff word_sless_alt

text \<open>\<open>MarshalJSON\<close> writes the decimal digits between two double quotes, and the digits
  parse back to the value.\<close>

lemma MarshalJSON_quoted:
  "MarshalJSON sf = CHR 0x22 # FormatInt sf @ [CHR 0x22] \<and> ParseInt (FormatInt sf) = Some sf"
  by (simp add: MarshalJSON_def ParseInt_FormatInt)

text \<open>
  Claim C7. For every non-negative \<open>int64\<close> value \<open>v\<close>, the wire form made by
  \<open>NewNetSnowflake\<close> parses back to exactly \<open>v\<close>, through \<open>ToID\<close> and through
  \<open>FromString\<close>.
\<close>

theorem wire_round_trip:
  "0 \<le>s v \<Longrightarrow> ToID (NewNetSnowflake v) = v \<and> FromString (NewNetSnowflake v) = v"
  by (simp add: ToID_def FromString_def NewNetSnowflake_def ParseInt_FormatInt)

theorem wire_round_trip_witness:
  "(0::int64) \<le>s 2856524282194824821
   \<and> NewNetSnowflake 2856524282194824821 = ''2856524282194824821''
   \<and> ToID ''2856524282194824821'' = 2856524282194824821
   \<and> FromString ''2856524282194824821'' = 2856524282194824821"
proof -
  have h: "(0::int64) \<le>s 2856524282194824821" by (simp add: word_sle_eq)
  have w: "NewNetSnowflake 2856524282194824821 = ''2856524282194824821''"
    by (simp add: NewNetSnowflake_def format_eval)
  show ?thesis using h wire_round_trip [OF h] by (simp add: w)
qed

text \<open>
  Claim C8. Parsing \<open>"not-a-number"\<close> with \<open>FromString\<close> or \<open>ToID\<close> gives the sentinel
  \<open>-1\<close>, which is negative; \<open>Valid\<close> is false for \<open>"-5"\<close> and true for \<open>"12345"\<close>; and
  \<open>Valid\<close> is true exactly for the strings that parse as a 64-bit integer that is not
  negative.
\<close>

theorem invalid_wire_form:
  "FromString ''not-a-number'' = - 1 \<and> ToID ''not-a-number'' = - 1 \<and> (- 1 :: int64) <s 0
   \<and> \<not> Valid ''-5'' \<and> Valid ''12345''
   \<and> (Valid s \<longleftrightarrow> (\<exists>i. ParseInt s = Some i \<and> 0 \<le>s i))"
proof -
  have "ParseInt ''not-a-number'' = None" by (simp add: parse_eval)
  then have a: "FromString ''not-a-number'' = - 1 \<and> ToID ''not-a-number'' = - 1"
    by (simp add: FromString_def ToID_def)
  have b: "(- 1 :: int64) <s 0" by (simp add: word_sless_alt)
  have "ParseInt ''-5'' = Some (- 5)" by (simp add: parse_eval)
  then have c: "\<not> Valid ''-5''" by (simp add: Valid_def word_sless_alt)
  have "ParseInt ''12345'' = Some 12345" by (simp add: parse_eval)
  then have d: "Valid ''12345''" by (simp add: Valid_def word_sless_alt)
  have e: "Valid s \<longleftrightarrow> (\<exists>i. ParseInt s = Some i \<and> 0 \<le>s i)"
    by (cases "ParseInt s") (auto simp: Valid_def word_sless_alt word_sle_eq)
  from a b c d e show ?thesis by blast
qed

text \<open>
  Claim C10. Whenever the string parses as an \<open>int64\<close>, \<open>FromString\<close> (and \<open>ToID\<close>)
  return the parsed value itself, negative values included: \<open>"-5"\<close> gives \<open>-5\<close>. The
  sentinel returned for a string that does not parse is the value of the string \<open>"-1"\<close>, so
  the two cannot be told apart from the result.
\<close>

theorem FromString_parsed_value:
  "(ParseInt s = Some v \<longrightarrow> FromString s = v \<and> ToID s = v)
   \<and> ParseInt ''-5'' = Some (- 5) \<and> FromString ''-5'' = - 5 \<and> ToID ''-5'' = - 5
   \<and> ParseInt ''-1'' = Some (- 1) \<and> ParseInt ''not-a-number'' = None
   \<and> FromString ''-1'' = FromString ''not-a-number''
   \<and> ToID ''-1'' = ToID ''not-a-number''"
proof -
  have a: "ParseInt s = Some v \<longrightarrow> FromString s = v \<and> ToID s = v"
    by (simp add: FromString_def ToID_def)
  have b: "ParseInt ''-5'' = Some (- 5)" by (simp add: parse_eval)
  have c: "ParseInt ''-1'' = Some (- 1)" by (simp add: parse_eval)
  have d: "ParseInt ''not-a-number'' = None" by (simp add: parse_eval)
  from a b c d show ?thesis by (simp add: FromString_def ToID_def)
qed

theorem FromString_parsed_value_witness:
  "ParseInt ''-42'' = Some (- 42) \<and> FromString ''-42'' = - 42 \<and> ToID ''-42'' = - 42"
proof -
  have p: "ParseInt ''-42'' = Some (- 42)" by (simp add: parse_eval)
  show ?thesis using p FromString_parsed_value [of "''-42''" "- 42"] by simp
qed

section \<open>The JSON form\<close>

lemma digits10_digits: "list_all is_digit (digits10 n)"
proof (induction n rule: digits10.induct)
  case (1 n)
  show ?case
  proof (cases "n < 10")
    case True
    then show ?thesis by (subst digits10.simps) (simp add: digit_char_digit)
  next
    case False
    then have "list_all is_digit (digits10 (n div 10))" by (rule "1.IH")
    moreover have "is_digit (digit_char (n mod 10))" by (simp add: digit_char_digit)
    ultimately show ?thesis using False by (subst digits10.simps) simp
  qed
qed

lemma FormatInt_chars: "list_all (\<lambda>c. is_digit c \<or> c = CHR ''-'') (FormatInt i)"
  using digits10_digits [of "nat (sint i)"] digits10_digits [of "nat (- sint i)"]
  by (auto simp: FormatInt_def list_all_iff)

lemma wire_char_plain:
  "is_digit c \<or> c = CHR ''-'' \<Longrightarrow> plain_char c \<and> c \<noteq> CHR 0x22 \<and> \<not> (of_char c :: nat) < 32 \<and> \<not> is_space c"
  by (auto simp: is_digit_def plain_char_def is_space_def)

lemma json_string_wire:
  assumes "list_all (\<lambda>c. is_digit c \<or> c = CHR ''-'') s"
  shows "json_string (s @ [CHR 0x22]) = Value (String_value s)"
proof -
  have a: "\<forall>c\<in>set s. plain_char c \<and> c \<noteq> CHR 0x22 \<and> \<not> (of_char c :: nat) < 32"
    using assms wire_char_plain by (auto simp: list_all_iff)
  then have d: "dropWhile (\<lambda>c. c \<noteq> CHR 0x22) (s @ [CHR 0x22]) = [CHR 0x22]"
    and t: "takeWhile (\<lambda>c. c \<noteq> CHR 0x22) (s @ [CHR 0x22]) = s"
    by (simp_all add: dropWhile_append2 takeWhile_append2)
  have p: "list_all plain_char (s @ [CHR 0x22])"
    using a by (simp add: list_all_iff plain_char_def)
  have c: "\<not> list_ex (\<lambda>c. (of_char c :: nat) < 32) (s @ [CHR 0x22])"
    using a by (simp add: list_ex_iff)
  show ?thesis by (simp only: json_string_def p d t c) simp
qed

lemma trim_quoted: "trim (CHR 0x22 # s @ [CHR 0x22]) = CHR 0x22 # s @ [CHR 0x22]"
  by (simp add: trim_def is_space_def)

lemma UnmarshalJSON_MarshalJSON: "UnmarshalJSON (MarshalJSON v) sf = Some (Inr v)"
proof -
  have "json_Unmarshal (MarshalJSON v) = Value (String_value (FormatInt v))"
    by (simp add: json_Unmarshal_def MarshalJSON_def trim_quoted json_string_wire FormatInt_chars)
  then show ?thesis by (simp add: UnmarshalJSON_def ParseInt_FormatInt)
qed

lemma json_Unmarshal_no_int:
  "json_Unmarshal b \<noteq> Value (Int_value v) \<and> json_Unmarshal b \<noteq> Value (Int64_value v)"
proof -
  have "json_string cs \<noteq> Value (Int_value v) \<and> json_string cs \<noteq> Value (Int64_value v)" for cs
    by (simp add: json_string_def)
  then show ?thesis
    by (simp add: json_Unmarshal_def split: list.split option.split)
qed

lemmas number_eval = json_number_def json_fraction_def json_exponent_def digits_val_def
  is_digit_def digit_val_def
lemmas round_eval = round_float64_def scaled_def bit_length.simps Let_def

lemma UnmarshalJSON_small_integer: "UnmarshalJSON ''12345'' sf = Some (Inr 12345)"
proof -
  have "json_number ''12345'' = Some (False, 12345, 0)" by (simp add: number_eval)
  moreover have "round_float64 12345 1 = Some (6786735522447360, - 39)" by (simp add: round_eval)
  ultimately have "json_Unmarshal ''12345'' = Value (Float64_value (Float64 False 6786735522447360 (- 39)))"
    by (simp add: json_Unmarshal_def trim_def is_space_def float64_of_decimal_def)
  then show ?thesis by (simp add: UnmarshalJSON_def int_of_float64_def)
qed

lemma UnmarshalJSON_fraction:
  "UnmarshalJSON ''12.7'' sf = Some (Inr 12) \<and> UnmarshalJSON ''-12.7'' sf = Some (Inr (- 12))"
proof -
  have "json_number ''12.7'' = Some (False, 127, - 1)" "json_number ''-12.7'' = Some (True, 127, - 1)"
    by (simp_all add: number_eval)
  moreover have "round_float64 127 10 = Some (7149464408450662, - 49)" by (simp add: round_eval)
  ultimately have "json_Unmarshal ''12.7'' = Value (Float64_value (Float64 False 7149464408450662 (- 49)))"
    "json_Unmarshal ''-12.7'' = Value (Float64_value (Float64 True 7149464408450662 (- 49)))"
    by (simp_all add: json_Unmarshal_def trim_def is_space_def float64_of_decimal_def)
  then show ?thesis by (simp add: UnmarshalJSON_def int_of_float64_def)
qed

text \<open>
  Claim C9 says that \<open>UnmarshalJSON\<close> sets the receiver to the integer it is given, also
  when the integer is not quoted. The decoder stores every number as a \<open>float64\<close>, so the
  cases \<open>int\<close> and \<open>int64\<close> of the switch are never taken and an integer of more than 53
  bits is rounded first: from the bytes \<open>2856524282194824821\<close> the receiver gets
  \<open>2856524282194824704\<close>.
\<close>
theorem UnmarshalJSON_large_integer:
  "UnmarshalJSON ''2856524282194824821'' sf = Some (Inr 2856524282194824704)
   \<and> json_Unmarshal ''2856524282194824821''
       = Value (Float64_value (Float64 False 5579148988661767 9))
   \<and> ParseInt ''2856524282194824821'' = Some 2856524282194824821"
proof -
  have n: "json_number ''2856524282194824821'' = Some (False, 2856524282194824821, 0)"
    by (simp add: number_eval)
  have r: "round_float64 2856524282194824821 1 = Some (5579148988661767, 9)"
    by (simp add: round_eval)
  have d: "json_Unmarshal ''2856524282194824821''
             = Value (Float64_value (Float64 False 5579148988661767 9))"
    using n r by (simp add: json_Unmarshal_def trim_def is_space_def float64_of_decimal_def)
  have i: "int_of_float64 (Float64 False 5579148988661767 9) = Some 2856524282194824704"
    by (simp add: int_of_float64_def)
  have p: "ParseInt ''2856524282194824821'' = Some 2856524282194824821"
    by (simp add: parse_eval)
  from d i p show ?thesis by (simp add: UnmarshalJSON_def)
qed

section \<open>The generator: the clock loop and the identifiers composed\<close>

lemma spin_result_pair:
  assumes "spin clk t now k = Some r"
  shows "\<not> fst r \<le>s t \<and> k \<le> snd r"
proof (rule spin.raw_induct [where P = "\<lambda>clk t now k r. \<not> fst r \<le>s t \<and> k \<le> snd r", OF _ assms],
    goal_cases)
  case (1 spin clk t now k r)
  show ?case
  proof (cases "now \<le>s t")
    case True
    then have "spin clk t (millis clk k) (Suc k) = Some r" using 1(2) by simp
    then have "\<not> fst r \<le>s t \<and> Suc k \<le> snd r" by (rule 1(1))
    then show ?thesis by simp
  next
    case False
    then show ?thesis using 1(2) by auto
  qed
qed

lemma spin_result:
  "spin clk t now k = Some (now', k') \<Longrightarrow> \<not> now' \<le>s t \<and> k \<le> k'"
  using spin_result_pair [of clk t now k "(now', k')"] by simp

lemma spin_returns:
  assumes "k \<le> j" and "\<not> millis clk j \<le>s t"
  shows "\<exists>r. spin clk t now k = Some r"
  using assms
proof (induction "j - k" arbitrary: k now)
  case 0
  then have j: "j = k" by simp
  show ?case
  proof (cases "now \<le>s t")
    case True
    have "spin clk t (millis clk k) (Suc k) = Some (millis clk k, Suc k)"
      using "0.prems"(2) by (subst spin.simps) (simp add: j)
    then show ?thesis using True by (subst spin.simps) simp
  next
    case False
    then show ?thesis by (subst spin.simps) simp
  qed
next
  case (Suc d)
  show ?case
  proof (cases "now \<le>s t")
    case True
    have "\<exists>r. spin clk t (millis clk k) (Suc k) = Some r"
      using Suc.hyps(2) Suc.prems by (intro Suc.hyps(1)) simp_all
    then show ?thesis using True by (subst spin.simps) simp
  next
    case False
    then show ?thesis by (subst spin.simps) simp
  qed
qed

lemma Next_result:
  assumes "Next clk self k = Some (i, self', k')"
  shows "i = (push_bit (unat (timeStep self)) (time self')
                OR push_bit (unat (nodeStep self)) (nodeId self)) OR sequence self'"
    and "self' = self\<lparr>sequence := sequence self', time := time self'\<rparr>"
    and "sequence self' = 0 \<or> sequence self' = (sequence self + 1) AND seqStep self"
    and "k < k'"
  using assms
  by (auto simp: Next_def Let_def split: if_splits option.splits dest: spin_result)

lemma Next_returns:
  assumes "Suc k \<le> j" and "\<not> millis clk j \<le>s time self"
  shows "\<exists>r. Next clk self k = Some r"
proof -
  have "\<exists>r. spin clk (time self) (time self) (Suc k) = Some r"
    using spin_returns [OF assms] by blast
  then show ?thesis
    by (auto simp: Next_def Let_def)
qed

lemma NewSnowflakeNode_steps:
  "unat (timeStep (NewSnowflakeNode n)) = 22" "unat (nodeStep (NewSnowflakeNode n)) = 10"
  "seqStep (NewSnowflakeNode n) = 4095" "nodeId (NewSnowflakeNode n) = n"
  "sequence (NewSnowflakeNode n) = 0" "time (NewSnowflakeNode n) = 0"
  by (simp_all add: NewSnowflakeNode_def baseNodeBits_def baseSeqIdBits_def mask_eq_exp_minus_1)

lemma millis_const: "millis (\<lambda>_. 5000000) k = 5"
  by (simp add: millis_def quo64_def signed_divide_int_def)

lemma seq_step:
  assumes "unat (s::int64) < 4095"
  shows "(s + 1) AND 4095 = s + 1" and "s + 1 \<noteq> 0" and "unat (s + 1) = Suc (unat s)"
proof -
  have u: "unat (s + 1) = Suc (unat s)"
    using assms by (simp add: unat_word_ariths)
  then show "unat (s + 1) = Suc (unat s)" .
  from u show "s + 1 \<noteq> 0" by (auto simp: unat_eq_0 [symmetric] simp del: unat_eq_0)
  have "s + 1 < 2 ^ 12" using u assms by (simp add: word_less_nat_alt)
  then have "(s + 1) AND mask 12 = s + 1" by (rule less_mask_eq)
  then show "(s + 1) AND 4095 = s + 1" by (simp add: mask_eq_exp_minus_1)
qed

lemma Next_same_ms:
  assumes "seqStep self = 4095" and "millis clk k = time self" and "unat (sequence self) < 4095"
  shows "Next clk self k =
           Some ((push_bit (unat (timeStep self)) (time self)
                    OR push_bit (unat (nodeStep self)) (nodeId self))
                   OR (sequence self + 1),
                 self\<lparr>sequence := sequence self + 1\<rparr>, Suc k)"
  using assms seq_step [OF assms(3)]
  by (simp add: Next_def Let_def)

lemma NextN_same_ms:
  assumes "seqStep self = 4095" and "\<forall>j. millis clk j = time self"
    and "unat (sequence self) + n \<le> 4095"
  shows "NextN n clk self k =
           Some (map (\<lambda>j. (push_bit (unat (timeStep self)) (time self)
                              OR push_bit (unat (nodeStep self)) (nodeId self))
                             OR (sequence self + of_nat (Suc j))) [0..<n],
                 self\<lparr>sequence := sequence self + of_nat n\<rparr>, k + n)"
  using assms
proof (induction n arbitrary: self k)
  case 0
  then show ?case by simp
next
  case (Suc n)
  let ?self = "self\<lparr>sequence := sequence self + 1\<rparr>"
  have lt: "unat (sequence self) < 4095" using Suc.prems(3) by simp
  have nx: "Next clk self k =
           Some ((push_bit (unat (timeStep self)) (time self)
                    OR push_bit (unat (nodeStep self)) (nodeId self))
                   OR (sequence self + 1), ?self, Suc k)"
    using Suc.prems(1,2) lt by (intro Next_same_ms) simp_all
  have "unat (sequence ?self) + n \<le> 4095"
    using Suc.prems(3) seq_step(3) [OF lt] by simp
  then have ih: "NextN n clk ?self (Suc k) =
           Some (map (\<lambda>j. (push_bit (unat (timeStep ?self)) (time ?self)
                              OR push_bit (unat (nodeStep ?self)) (nodeId ?self))
                             OR (sequence ?self + of_nat (Suc j))) [0..<n],
                 ?self\<lparr>sequence := sequence ?self + of_nat n\<rparr>, Suc k + n)"
    using Suc.prems(1,2) by (intro Suc.IH) simp_all
  have "map (\<lambda>j. f (sequence self + of_nat (Suc j))) [0..<Suc n]
      = f (sequence self + 1) # map (\<lambda>j. f (sequence self + 1 + of_nat (Suc j))) [0..<n]" for f :: "int64 \<Rightarrow> int64"
  proof -
    have "[0..<Suc n] = 0 # map Suc [0..<n]"
      by (simp only: map_Suc_upt upt_conv_Cons [of 0 "Suc n"] zero_less_Suc)
    then show ?thesis by (simp add: comp_def add.assoc del: upt_Suc)
  qed
  then show ?case
    by (simp add: nx ih add.assoc del: upt_Suc)
qed

text \<open>
  Claim C1 says that \<open>Next\<close> returns \<open>(now << 22) | (n << 12) | s\<close>. The constructor sets
  \<open>nodeStep\<close> to \<open>baseNodeBits\<close>, which is 10, so the node ID is shifted by 10 and not by
  the 12 bits of the sequence: on node 1, at 5 ms after the epoch and with sequence 0,
  \<open>Next\<close> returns \<open>20972544 = (5 << 22) | (1 << 10)\<close>, where the claim gives
  \<open>20975616 = (5 << 22) | (1 << 12)\<close>.
\<close>

theorem Next_node_shift:
  "Next (\<lambda>_. 5000000) (NewSnowflakeNode 1) 0
     = Some (20972544, (NewSnowflakeNode 1)\<lparr>sequence := 0, time := 5\<rparr>, 1)
   \<and> (push_bit 22 5 OR push_bit 10 1) OR 0 = (20972544 :: int64)
   \<and> (push_bit 22 5 OR push_bit 12 1) OR 0 = (20975616 :: int64)"
  by (simp add: Next_def millis_const NewSnowflakeNode_def baseNodeBits_def baseSeqIdBits_def)

lemma first_call:
  "Next (\<lambda>_. 5000000) (NewSnowflakeNode 1) 0
     = Some (20972544, (NewSnowflakeNode 1)\<lparr>sequence := 0, time := 5\<rparr>, 1)"
  by (simp add: Next_def millis_const NewSnowflakeNode_def baseNodeBits_def baseSeqIdBits_def)

text \<open>
  Claim C2 says that the identifiers of \<open>N\<close> calls in a row never decrease and are all
  different. With the node ID shifted by 10 its low two bits share bits 10 and 11 with the
  sequence: on node 1, 1025 calls within the same millisecond (the clock stays at 5 ms, so
  it does not decrease) return 1025 identifiers of which the first and the last are the
  same, and the last is below the one before it.
\<close>

theorem NextN_repeats_identifier:
  "map_option (\<lambda>(ids, self', k'). (length ids, ids ! 0, ids ! 1023, ids ! 1024))
      (NextN 1025 (\<lambda>_. 5000000) (NewSnowflakeNode 1) 0)
     = Some (1025, 20972544, 20973567, 20972544)"
proof -
  let ?clk = "\<lambda>_::nat. 5000000 :: int64"
  let ?self = "(NewSnowflakeNode 1)\<lparr>sequence := 0, time := 5\<rparr>"
  have "NextN 1024 ?clk ?self 1 =
           Some (map (\<lambda>j. (push_bit (unat (timeStep ?self)) (time ?self)
                              OR push_bit (unat (nodeStep ?self)) (nodeId ?self))
                             OR (sequence ?self + of_nat (Suc j))) [0..<1024],
                 ?self\<lparr>sequence := sequence ?self + of_nat 1024\<rparr>, 1 + 1024)"
    by (rule NextN_same_ms) (simp_all add: NewSnowflakeNode_steps millis_const)
  then have rest: "NextN 1024 ?clk ?self 1 =
           Some (map (\<lambda>j. 20972544 OR (1 + of_nat j)) [0..<1024],
                 ?self\<lparr>sequence := 1024\<rparr>, 1025)"
    by (simp add: NewSnowflakeNode_steps)
  have "(1025::nat) = Suc 1024" by simp
  then have "NextN 1025 ?clk (NewSnowflakeNode 1) 0 =
      Some (20972544 # map (\<lambda>j. 20972544 OR (1 + of_nat j)) [0..<1024],
            ?self\<lparr>sequence := 1024\<rparr>, 1025)"
    by (simp only: NextN.simps first_call rest option.case prod.case)
  then show ?thesis by simp
qed

text \<open>
  Claim C4, as stated, for the semantic encoder: the object ID \<open>2 ^ 40\<close> fits 41 bits,
  and shifted by 23 it sets the top bit, so the identifier is negative.
\<close>

theorem ToSnowflake_sign_bit:
  "(0::int64) \<le>s 1099511627776 \<and> (1099511627776::int64) <s 2 ^ 41
   \<and> ToSnowflake \<lparr>ID = 1099511627776, NodeID = 0, TypeID = 0, GlobalTypeID = 0\<rparr> <s 0"
  by (simp add: ToSnowflake_def GetNodeID_def GetTypeID_def rem64_def signed_modulo_int_def
      word_sless_alt word_sle_eq)

lemma classic_sign: "bit ((push_bit 22 (take_bit 41 a) OR push_bit 10 (take_bit 10 b)) OR take_bit 12 c) 63 = False"
  for a b c :: int64
  by (auto simp: bit_simps)

lemma and_4095: "(x::int64) AND 4095 = take_bit 12 x"
  by (simp add: take_bit_eq_mask mask_eq_exp_minus_1)

text \<open>What \<open>Next\<close> composes on a node made by \<open>NewSnowflakeNode\<close>: the time shifted by 22,
  the node ID shifted by 10, and a sequence of at most 12 bits.\<close>

lemma Next_layout:
  assumes "Next clk ((NewSnowflakeNode n)\<lparr>sequence := sq, time := t\<rparr>) k = Some (i, self', k')"
  shows "i = (push_bit 22 (time self') OR push_bit 10 n) OR sequence self'"
    and "take_bit 12 (sequence self') = sequence self'"
proof -
  show "i = (push_bit 22 (time self') OR push_bit 10 n) OR sequence self'"
    using Next_result(1) [OF assms] by (simp add: NewSnowflakeNode_steps)
  have "sequence self' = 0 \<or> sequence self' = (sq + 1) AND 4095"
    using Next_result(3) [OF assms] by (simp add: NewSnowflakeNode_steps)
  then show "take_bit 12 (sequence self') = sequence self'"
    by (auto simp: and_4095)
qed

lemma Next_non_negative:
  assumes nx: "Next clk ((NewSnowflakeNode n)\<lparr>sequence := sq, time := t\<rparr>) k = Some (i, self', k')"
    and n: "0 \<le>s n" "n <s 1024" and now: "0 \<le>s time self'" "time self' <s 2 ^ 41"
  shows "0 \<le>s i"
proof -
  note i = Next_layout(1) [OF nx] and s = Next_layout(2) [OF nx]
  have t: "take_bit 41 (time self') = time self'"
    using now by (intro fits_take_bit) simp_all
  have m: "take_bit 10 n = n"
    using n fits_take_bit [of n 10] by simp
  have "\<not> bit i 63"
    using classic_sign [of "time self'" n "sequence self'"] by (simp add: i s t m)
  then show ?thesis by (simp add: nonneg_iff_bit)
qed

lemma ToSnowflake_non_negative:
  assumes "0 \<le>s ID s" "ID s <s 2 ^ 40" "0 \<le>s NodeID s" "0 \<le>s TypeID s"
  shows "0 \<le>s ToSnowflake s"
proof -
  have "take_bit 40 (ID s) = ID s"
    using assms(1,2) by (intro fits_take_bit) simp_all
  then have "\<not> bit (ID s) 40"
    by (metis bit_take_bit_iff less_irrefl)
  then have "\<not> bit (ToSnowflake s) 63"
    by (simp add: ToSnowflake_nonneg [OF assms(3,4)] pack_sign)
  then show ?thesis by (simp add: nonneg_iff_bit)
qed

text \<open>
  Claim C4, amended. An identifier returned by \<open>Next\<close> on a node made with
  \<open>0 \<le> nodeID < 1024\<close> is not negative while the time chosen fits 41 bits; and the
  identifier \<open>ToSnowflake\<close> makes from a triple with \<open>0 \<le> objectID < 2 ^ 40\<close>,
  \<open>0 \<le> nodeID < 8192\<close> and \<open>0 \<le> typeID < 1024\<close> is not negative.
\<close>

theorem identifiers_non_negative:
  "(Next clk ((NewSnowflakeNode n)\<lparr>sequence := sq, time := t\<rparr>) k = Some (i, self', k')
      \<and> 0 \<le>s n \<and> n <s 1024 \<and> 0 \<le>s time self' \<and> time self' <s 2 ^ 41 \<longrightarrow> 0 \<le>s i)
   \<and> (0 \<le>s ID s \<and> ID s <s 2 ^ 40 \<and> 0 \<le>s NodeID s \<and> NodeID s <s 8192
        \<and> 0 \<le>s TypeID s \<and> TypeID s <s 1024 \<longrightarrow> 0 \<le>s ToSnowflake s)"
  using Next_non_negative [where clk = clk and n = n and sq = sq and t = t and k = k
      and i = i and self' = self' and k' = k'] ToSnowflake_non_negative [of s]
  by blast

theorem identifiers_non_negative_witness:
  "Next (\<lambda>_. 5000000) ((NewSnowflakeNode 1)\<lparr>sequence := 0, time := 0\<rparr>) 0
      = Some (20972544, (NewSnowflakeNode 1)\<lparr>sequence := 0, time := 5\<rparr>, 1)
   \<and> (0::int64) \<le>s 1 \<and> (1::int64) <s 1024 \<and> (0::int64) \<le>s 5 \<and> (5::int64) <s 2 ^ 41
   \<and> (0::int64) \<le>s 20972544
   \<and> (0::int64) \<le>s 340524230265 \<and> (340524230265::int64) <s 2 ^ 40
   \<and> (0::int64) \<le>s 50 \<and> (50::int64) <s 8192 \<and> (0::int64) \<le>s 100 \<and> (100::int64) <s 1024
   \<and> 0 \<le>s ToSnowflake \<lparr>ID = 340524230265, NodeID = 50, TypeID = 100, GlobalTypeID = 0\<rparr>"
proof -
  let ?self' = "(NewSnowflakeNode 1)\<lparr>sequence := 0, time := 5\<rparr>"
  let ?s = "\<lparr>ID = 340524230265, NodeID = 50, TypeID = 100, GlobalTypeID = 0\<rparr>"
  have nx: "Next (\<lambda>_. 5000000) ((NewSnowflakeNode 1)\<lparr>sequence := 0, time := 0\<rparr>) 0
      = Some (20972544, ?self', 1)"
    by (simp add: Next_def millis_const NewSnowflakeNode_def baseNodeBits_def baseSeqIdBits_def)
  have g: "(0::int64) \<le>s 1" "(1::int64) <s 1024" "0 \<le>s time ?self'" "time ?self' <s 2 ^ 41"
    by (simp_all add: word_sle_eq word_sless_alt)
  have c: "0 \<le>s ID ?s" "ID ?s <s 2 ^ 40" "0 \<le>s NodeID ?s" "NodeID ?s <s 8192"
    "0 \<le>s TypeID ?s" "TypeID ?s <s 1024"
    by (simp_all add: word_sle_eq word_sless_alt)
  note th = identifiers_non_negative [where clk = "\<lambda>_. 5000000" and n = 1 and sq = 0 and t = 0
      and k = 0 and i = 20972544 and self' = ?self' and k' = 1 and s = ?s]
  have "(0::int64) \<le>s 20972544" using th nx g by blast
  moreover have "0 \<le>s ToSnowflake ?s" using th c by blast
  ultimately show ?thesis using nx g c by simp
qed

end
